theory Spec2Isabelle
  imports Main "HOL-Library.Multiset" "HOL-Library.Sublist"
begin

section \<open>The reel bot of \<^verbatim>\<open>app.py\<close>: data model\<close>

text \<open>
  The bot keeps its state in files: \<^verbatim>\<open>reels.json\<close> (all references),
  \<^verbatim>\<open>used.json\<close> (references already sampled), one
  \<^verbatim>\<open>daily_reels_<date>.json\<close> per calendar date (the day's queue) and
  \<^verbatim>\<open>description.xlsx\<close> (the ledger). A file is absent, unreadable, or holds a list.
\<close>

datatype 'a disk_file = Absent | Malformed | Listing "'a list"

text \<open>The dictionary returned by \<^verbatim>\<open>download_reel\<close> and stored in the daily queue.\<close>

record reel_data =
  file_path :: string
  description :: string
  url :: string

text \<open>A row of \<^verbatim>\<open>description.xlsx\<close>.\<close>

record row =
  URL :: string
  Description :: string
  Download_Date :: string
  Upload_Date :: string

text \<open>The messages the logger receives, each with the level of the call that emits it.\<close>

datatype level = INFO | WARNING | ERROR

datatype log_event =
    Error_reading string
  | Failed_to_extract string
  | Skipping_not_a_video string
  | Successfully_downloaded string
  | Failed_to_download string
  | Failed_to_save_description
  | Failed_to_update_upload_date
  | Successfully_uploaded string
  | Deleted_video_file string
  | Failed_to_upload string
  | Not_enough_reels nat
  | Prepared_reels nat
  | No_reels_prepared_for_today
  | All_reels_uploaded

fun level_of :: "log_event \<Rightarrow> level" where
  "level_of (Error_reading f) = ERROR"
| "level_of (Failed_to_extract u) = ERROR"
| "level_of (Skipping_not_a_video u) = WARNING"
| "level_of (Successfully_downloaded u) = INFO"
| "level_of (Failed_to_download u) = ERROR"
| "level_of Failed_to_save_description = ERROR"
| "level_of Failed_to_update_upload_date = ERROR"
| "level_of (Successfully_uploaded p) = INFO"
| "level_of (Deleted_video_file p) = INFO"
| "level_of (Failed_to_upload p) = ERROR"
| "level_of (Not_enough_reels k) = WARNING"
| "level_of (Prepared_reels k) = INFO"
| "level_of No_reels_prepared_for_today = INFO"
| "level_of All_reels_uploaded = INFO"

text \<open>
  The state the bot reads and writes. \<open>daily_json\<close> is keyed by the date string of the
  file name; \<open>media\<close> is the set of video paths that exist on disk and
  \<open>unremovable\<close> the set of paths on which \<^verbatim>\<open>os.remove\<close> raises (a locked or
  protected file); \<open>clip_uploads\<close> records every call of the publish collaborator
  \<^verbatim>\<open>client.clip_upload\<close>.
\<close>

record store =
  reels_json :: "string disk_file"
  used_json :: "string disk_file"
  daily_json :: "string \<Rightarrow> reel_data disk_file"
  description_xlsx :: "row disk_file"
  media :: "string set"
  unremovable :: "string set"
  clip_uploads :: "(string \<times> string) list"
  log :: "log_event list"

definition daily_limit :: nat where
  "daily_limit = 5"

definition logger :: "log_event list \<Rightarrow> store \<Rightarrow> store" where
  "logger evs s = s\<lparr>log := log s @ evs\<rparr>"

subsection \<open>The clock\<close>

record datetime =
  year :: nat
  month :: nat
  day :: nat
  hour :: nat
  minute :: nat
  second :: nat

definition digit :: "nat \<Rightarrow> char" where
  "digit n = ''0123456789'' ! (n mod 10)"

definition pad2 :: "nat \<Rightarrow> string" where
  "pad2 n = [digit (n div 10), digit n]"

definition pad4 :: "nat \<Rightarrow> string" where
  "pad4 n = [digit (n div 1000), digit (n div 100), digit (n div 10), digit n]"

text \<open>\<^verbatim>\<open>strftime('%Y-%m-%d')\<close> and \<^verbatim>\<open>strftime('%Y-%m-%d %H:%M:%S')\<close>.\<close>

definition strftime_date :: "datetime \<Rightarrow> string" where
  "strftime_date t = pad4 (year t) @ ''-'' @ pad2 (month t) @ ''-'' @ pad2 (day t)"

definition strftime_datetime :: "datetime \<Rightarrow> string" where
  "strftime_datetime t =
     strftime_date t @ '' '' @ pad2 (hour t) @ '':'' @ pad2 (minute t) @ '':'' @ pad2 (second t)"

subsection \<open>Reading and writing the JSON files\<close>

text \<open>
  \<^verbatim>\<open>load_json_file\<close>: a missing file reads as the empty list; an undecodable one is
  logged and reads as the empty list too. The second component is what gets logged.
\<close>

fun load_json_file :: "string \<Rightarrow> 'a disk_file \<Rightarrow> 'a list \<times> log_event list" where
  "load_json_file filename Absent = ([], [])"
| "load_json_file filename Malformed = ([], [Error_reading filename])"
| "load_json_file filename (Listing xs) = (xs, [])"

definition save_json_file :: "'a list \<Rightarrow> 'a disk_file" where
  "save_json_file data = Listing data"

subsection \<open>\<^verbatim>\<open>get_available_reels\<close>\<close>

text \<open>Python's \<^verbatim>\<open>x in xs\<close> on a list: a scan from the left comparing with \<^verbatim>\<open>==\<close>.\<close>

fun py_in :: "'a \<Rightarrow> 'a list \<Rightarrow> bool" where
  "py_in x [] = False"
| "py_in x (y # ys) = (if x = y then True else py_in x ys)"

text \<open>The comprehension \<^verbatim>\<open>[reel for reel in all_reels if reel not in used_reels]\<close>.\<close>

fun not_used :: "'a list \<Rightarrow> 'a list \<Rightarrow> 'a list" where
  "not_used [] used_reels = []"
| "not_used (reel # all_reels) used_reels =
     (if \<not> py_in reel used_reels then reel # not_used all_reels used_reels
      else not_used all_reels used_reels)"

definition get_available_reels :: "store \<Rightarrow> string list \<times> store" where
  "get_available_reels s =
     (let (all_reels, ev1) = load_json_file ''reels.json'' (reels_json s);
          (used_reels, ev2) = load_json_file ''used.json'' (used_json s);
          available_reels = not_used all_reels used_reels
      in (available_reels, logger (ev1 @ ev2) s))"

subsection \<open>The fetch collaborator: \<^verbatim>\<open>extract_reel_info\<close> and \<^verbatim>\<open>download_reel\<close>\<close>

text \<open>
  What Instagram and the download directory answer for one shortcode:
  \<open>from_shortcode\<close> is the post \<^verbatim>\<open>Post.from_shortcode\<close> returns (\<open>None\<close> when it
  raises), \<open>download_post\<close> says whether the second lookup and
  \<^verbatim>\<open>loader.download_post\<close> finish without raising, and \<open>listed_mp4\<close> is the first
  file of the download directory whose name contains the shortcode and ends in
  \<^verbatim>\<open>.mp4\<close>, joined with the directory.
\<close>

record post =
  caption :: "string option"
  is_video :: bool

record instagram =
  from_shortcode :: "post option"
  download_post :: bool
  listed_mp4 :: "string option"

record reel_info =
  info_url :: string
  info_description :: string
  info_shortcode :: string
  info_is_video :: bool

text \<open>\<^verbatim>\<open>url.rstrip('/').split('/')[-1]\<close>\<close>

definition rstrip_slash :: "string \<Rightarrow> string" where
  "rstrip_slash u = rev (dropWhile (\<lambda>c. c = CHR ''/'') (rev u))"

definition last_segment :: "string \<Rightarrow> string" where
  "last_segment u = rev (takeWhile (\<lambda>c. c \<noteq> CHR ''/'') (rev u))"

definition shortcode_of :: "string \<Rightarrow> string" where
  "shortcode_of u = last_segment (rstrip_slash u)"

definition extract_reel_info ::
  "(string \<Rightarrow> instagram) \<Rightarrow> string \<Rightarrow> reel_info option \<times> log_event list" where
  "extract_reel_info world u =
     (let shortcode = shortcode_of u in
      case from_shortcode (world shortcode) of
        None \<Rightarrow> (None, [Failed_to_extract u])
      | Some p \<Rightarrow>
          (Some \<lparr>info_url = u,
                 info_description =
                   (case caption p of
                      None \<Rightarrow> ''No description available''
                    | Some c \<Rightarrow> if c = [] then ''No description available'' else c),
                 info_shortcode = shortcode,
                 info_is_video = is_video p\<rparr>, []))"

text \<open>
  \<^verbatim>\<open>save_description_to_excel\<close> and \<^verbatim>\<open>update_upload_date_in_excel\<close>: both catch
  every exception of reading or writing the sheet, log it and carry on.
\<close>

definition save_description_to_excel :: "datetime \<Rightarrow> reel_info \<Rightarrow> store \<Rightarrow> store" where
  "save_description_to_excel now info s =
     (case description_xlsx s of
        Listing df \<Rightarrow>
          s\<lparr>description_xlsx :=
               Listing (df @ [\<lparr>URL = info_url info,
                               Description = info_description info,
                               Download_Date = strftime_datetime now,
                               Upload_Date = []\<rparr>])\<rparr>
      | _ \<Rightarrow> logger [Failed_to_save_description] s)"

definition set_upload_date :: "string \<Rightarrow> string \<Rightarrow> row \<Rightarrow> row" where
  "set_upload_date u stamp r = (if URL r = u then r\<lparr>Upload_Date := stamp\<rparr> else r)"

definition update_upload_date_in_excel :: "datetime \<Rightarrow> string \<Rightarrow> store \<Rightarrow> store" where
  "update_upload_date_in_excel now u s =
     (case description_xlsx s of
        Listing df \<Rightarrow>
          s\<lparr>description_xlsx := Listing (map (set_upload_date u (strftime_datetime now)) df)\<rparr>
      | _ \<Rightarrow> logger [Failed_to_update_upload_date] s)"

definition download_reel ::
  "datetime \<Rightarrow> (string \<Rightarrow> instagram) \<Rightarrow> string \<Rightarrow> store \<Rightarrow> reel_data option \<times> store" where
  "download_reel now world u s =
     (let (info_opt, ev) = extract_reel_info world u;
          s1 = logger ev s
      in case info_opt of
           None \<Rightarrow> (None, logger [Skipping_not_a_video u] s1)
         | Some info \<Rightarrow>
             if \<not> info_is_video info then (None, logger [Skipping_not_a_video u] s1)
             else if \<not> download_post (world (info_shortcode info))
               then (None, logger [Failed_to_download u] s1)
             else
               (case listed_mp4 (world (info_shortcode info)) of
                  None \<Rightarrow> (None, s1)
                | Some video_file \<Rightarrow>
                    (let s2 = save_description_to_excel now info
                                (s1\<lparr>media := insert video_file (media s1)\<rparr>);
                         s3 = logger [Successfully_downloaded u] s2
                     in (Some \<lparr>file_path = video_file,
                                description = info_description info,
                                url = u\<rparr>, s3))))"

subsection \<open>The publish collaborator: \<^verbatim>\<open>upload_reel\<close>\<close>

text \<open>
  \<open>ok\<close> is the outcome of \<^verbatim>\<open>client.clip_upload\<close>: \<open>False\<close> when it raises. The
  whole body is inside one \<^verbatim>\<open>try\<close>: an exception of \<^verbatim>\<open>os.remove\<close> on an existing
  file is caught by the same handler, which logs the upload as failed and returns
  \<open>False\<close>, after the upload went through and the ledger was updated.
\<close>

definition upload_reel ::
  "datetime \<Rightarrow> bool \<Rightarrow> string \<Rightarrow> string \<Rightarrow> string \<Rightarrow> store \<Rightarrow> bool \<times> store" where
  "upload_reel now ok video_path descr u s =
     (let s1 = s\<lparr>clip_uploads := clip_uploads s @ [(video_path, descr)]\<rparr> in
      if \<not> ok then (False, logger [Failed_to_upload video_path] s1)
      else
        (let s2 = update_upload_date_in_excel now u s1;
             s3 = logger [Successfully_uploaded video_path] s2
         in if video_path \<in> media s3
            then (if video_path \<in> unremovable s3
                  then (False, logger [Failed_to_upload video_path] s3)
                  else (True, logger [Deleted_video_file video_path]
                                (s3\<lparr>media := media s3 - {video_path}\<rparr>)))
            else (True, s3)))"

subsection \<open>\<^verbatim>\<open>random.sample\<close>\<close>

text \<open>
  The library call picks \<open>k\<close> positions of the population without replacement and
  raises \<^verbatim>\<open>ValueError\<close> when the population is smaller than \<open>k\<close>. The random source is
  the sequence \<open>rnd\<close>: each draw takes the next number, reduced to the size of what is
  left, and removes the chosen position.
\<close>

datatype error = ValueError

fun draw :: "(nat \<Rightarrow> nat) \<Rightarrow> nat \<Rightarrow> 'a list \<Rightarrow> 'a list" where
  "draw rnd 0 pool = []"
| "draw rnd (Suc k) [] = []"
| "draw rnd (Suc k) (x # xs) =
     (let j = rnd k mod length (x # xs)
      in (x # xs) ! j # draw rnd k (take j (x # xs) @ drop (Suc j) (x # xs)))"

definition random_sample :: "(nat \<Rightarrow> nat) \<Rightarrow> 'a list \<Rightarrow> nat \<Rightarrow> error + 'a list" where
  "random_sample rnd population k =
     (if length population < k then Inl ValueError else Inr (draw rnd k population))"

subsection \<open>\<^verbatim>\<open>process_daily_reels\<close>\<close>

text \<open>The loop \<^verbatim>\<open>for url in selected_reels\<close>, appending every download that returned data.\<close>

fun download_loop ::
  "datetime \<Rightarrow> (string \<Rightarrow> instagram) \<Rightarrow> string list \<Rightarrow> reel_data list \<Rightarrow> store
     \<Rightarrow> reel_data list \<times> store" where
  "download_loop now world [] downloaded_reels s = (downloaded_reels, s)"
| "download_loop now world (u # us) downloaded_reels s =
     (case download_reel now world u s of
        (None, s') \<Rightarrow> download_loop now world us downloaded_reels s'
      | (Some rd, s') \<Rightarrow> download_loop now world us (downloaded_reels @ [rd]) s')"

text \<open>
  \<open>limit\<close> is \<^verbatim>\<open>self.daily_limit\<close> (the constructor sets it to \<open>daily_limit\<close>). The
  result is \<open>Inl\<close> when an exception leaves the function.
\<close>

definition process_daily_reels ::
  "nat \<Rightarrow> datetime \<Rightarrow> (nat \<Rightarrow> nat) \<Rightarrow> (string \<Rightarrow> instagram) \<Rightarrow> store
     \<Rightarrow> error + (reel_data list \<times> store)" where
  "process_daily_reels limit now rnd world s =
     (let (available_reels, s1) = get_available_reels s in
      if length available_reels < limit
      then Inr ([], logger [Not_enough_reels (length available_reels)] s1)
      else
        (case random_sample rnd available_reels limit of
           Inl e \<Rightarrow> Inl e
         | Inr selected_reels \<Rightarrow>
             (let (downloaded_reels, s2) = download_loop now world selected_reels [] s1;
                  (used_reels, ev) = load_json_file ''used.json'' (used_json s2);
                  s3 = (logger ev s2)\<lparr>used_json := save_json_file (used_reels @ selected_reels)\<rparr>;
                  today = strftime_date now;
                  s4 = s3\<lparr>daily_json := (daily_json s3)(today := save_json_file downloaded_reels)\<rparr>
              in Inr (downloaded_reels, logger [Prepared_reels (length downloaded_reels)] s4))))"

subsection \<open>\<^verbatim>\<open>upload_next_reel\<close>\<close>

definition daily_reels_file :: "string \<Rightarrow> string" where
  "daily_reels_file today = ''daily_reels_'' @ today @ ''.json''"

definition upload_next_reel :: "datetime \<Rightarrow> bool \<Rightarrow> store \<Rightarrow> store" where
  "upload_next_reel now ok s =
     (let today = strftime_date now in
      if daily_json s today = Absent then logger [No_reels_prepared_for_today] s
      else
        (let (daily_reels, ev) = load_json_file (daily_reels_file today) (daily_json s today);
             s1 = logger ev s
         in case daily_reels of
              [] \<Rightarrow> logger [All_reels_uploaded] s1
            | rd # rest \<Rightarrow>
                (let (success, s2) = upload_reel now ok (file_path rd) (description rd) (url rd) s1
                 in if success
                    then s2\<lparr>daily_json := (daily_json s2)(today := save_json_file rest)\<rparr>
                    else s2\<lparr>daily_json := (daily_json s2)(today := save_json_file (rd # rest))\<rparr>)))"

subsection \<open>\<^verbatim>\<open>setup_schedule\<close>\<close>

datatype weekday = Monday | Tuesday | Wednesday | Thursday | Friday | Saturday | Sunday

datatype period = Weekly weekday | Every_day

datatype action = Upload_next_reel | Process_daily_reels

record job =
  job_every :: period
  job_at :: string
  job_do :: action

definition upload_at :: "weekday \<Rightarrow> string \<Rightarrow> job" where
  "upload_at d t = \<lparr>job_every = Weekly d, job_at = t, job_do = Upload_next_reel\<rparr>"

definition setup_schedule :: "job list" where
  "setup_schedule =
     [upload_at Monday ''07:30'', upload_at Monday ''11:00'', upload_at Monday ''13:30'',
      upload_at Monday ''17:30'', upload_at Monday ''21:00'',
      upload_at Tuesday ''07:30'', upload_at Tuesday ''11:00'', upload_at Tuesday ''13:30'',
      upload_at Tuesday ''17:30'', upload_at Tuesday ''21:00'',
      upload_at Wednesday ''07:30'', upload_at Wednesday ''11:00'', upload_at Wednesday ''13:30'',
      upload_at Wednesday ''17:30'', upload_at Wednesday ''21:00'',
      upload_at Thursday ''07:30'', upload_at Thursday ''11:00'', upload_at Thursday ''13:30'',
      upload_at Thursday ''17:30'', upload_at Thursday ''21:00'',
      upload_at Friday ''07:30'', upload_at Friday ''11:00'', upload_at Friday ''13:30'',
      upload_at Friday ''17:30'', upload_at Friday ''21:00'',
      upload_at Saturday ''09:00'', upload_at Saturday ''12:00'', upload_at Saturday ''15:00'',
      upload_at Saturday ''18:30'', upload_at Saturday ''21:30'',
      upload_at Sunday ''09:00'', upload_at Sunday ''12:00'', upload_at Sunday ''15:00'',
      upload_at Sunday ''18:30'', upload_at Sunday ''21:30'',
      \<lparr>job_every = Every_day, job_at = ''00:01'', job_do = Process_daily_reels\<rparr>]"

text \<open>A weekly job runs on its weekday, a daily job on every day.\<close>

fun runs_on :: "period \<Rightarrow> weekday \<Rightarrow> bool" where
  "runs_on (Weekly d') d = (d' = d)"
| "runs_on Every_day d = True"

fun slots :: "job list \<Rightarrow> weekday \<Rightarrow> action \<Rightarrow> string list" where
  "slots [] d a = []"
| "slots (j # js) d a =
     (if runs_on (job_every j) d \<and> job_do j = a then job_at j # slots js d a
      else slots js d a)"

subsection \<open>Runs of scheduled calls\<close>

text \<open>
  What the scheduler invokes over time: each call with the clock reading and the
  collaborators' answers it meets. An exception leaving a call ends the run.
\<close>

datatype call =
    Drain datetime bool
  | Prepare datetime "nat \<Rightarrow> nat" "string \<Rightarrow> instagram"

fun run_call :: "nat \<Rightarrow> call \<Rightarrow> store \<Rightarrow> error + store" where
  "run_call limit (Drain now ok) s = Inr (upload_next_reel now ok s)"
| "run_call limit (Prepare now rnd world) s =
     (case process_daily_reels limit now rnd world s of
        Inl e \<Rightarrow> Inl e
      | Inr (batch, s') \<Rightarrow> Inr s')"

fun run_calls :: "nat \<Rightarrow> call list \<Rightarrow> store \<Rightarrow> error + store" where
  "run_calls limit [] s = Inr s"
| "run_calls limit (c # cs) s =
     (case run_call limit c s of
        Inl e \<Rightarrow> Inl e
      | Inr s' \<Rightarrow> run_calls limit cs s')"

text \<open>The files and the disk, without the log and the record of publish calls.\<close>

definition persisted ::
  "store \<Rightarrow> string disk_file \<times> string disk_file \<times> (string \<Rightarrow> reel_data disk_file)
     \<times> row disk_file \<times> string set" where
  "persisted s = (reels_json s, used_json s, daily_json s, description_xlsx s, media s)"

subsection \<open>What the files hold, as the bot reads them\<close>

definition all_reels :: "store \<Rightarrow> string list" where
  "all_reels s = fst (load_json_file ''reels.json'' (reels_json s))"

definition used_reels :: "store \<Rightarrow> string list" where
  "used_reels s = fst (load_json_file ''used.json'' (used_json s))"

definition available :: "store \<Rightarrow> string list" where
  "available s = fst (get_available_reels s)"

definition queue :: "store \<Rightarrow> string \<Rightarrow> reel_data list" where
  "queue s today = fst (load_json_file (daily_reels_file today) (daily_json s today))"

fun py_subset :: "'a list \<Rightarrow> 'a list \<Rightarrow> bool" where
  "py_subset [] ys = True"
| "py_subset (x # xs) ys = (py_in x ys \<and> py_subset xs ys)"

definition ledger_rows :: "store \<Rightarrow> row list" where
  "ledger_rows s = (case description_xlsx s of Listing df \<Rightarrow> df | _ \<Rightarrow> [])"

text \<open>Removing the file \<open>p\<close> raises: it is on disk and cannot be removed.\<close>

definition remove_raises :: "store \<Rightarrow> string \<Rightarrow> bool" where
  "remove_raises s p = (p \<in> media s \<and> p \<in> unremovable s)"

text \<open>
  The entry a fetch of the reference \<open>u\<close> yields, read off the collaborator's answers
  alone: the fetch succeeds when the post is found and is a video, the download raises
  nothing and the directory lists a video file for the shortcode.
\<close>

definition fetched_entry :: "(string \<Rightarrow> instagram) \<Rightarrow> string \<Rightarrow> reel_data option" where
  "fetched_entry world u =
     (let a = world (shortcode_of u) in
      case (from_shortcode a, listed_mp4 a) of
        (Some p, Some video_file) \<Rightarrow>
          if is_video p \<and> download_post a
          then Some \<lparr>file_path = video_file,
                      description =
                        (case caption p of
                           None \<Rightarrow> ''No description available''
                         | Some c \<Rightarrow> if c = [] then ''No description available'' else c),
                      url = u\<rparr>
          else None
      | _ \<Rightarrow> None)"

text \<open>Every reference in the queue of date \<open>d\<close> is in the used list.\<close>

definition queue_refs_used :: "store \<Rightarrow> string \<Rightarrow> bool" where
  "queue_refs_used s d = py_subset (map url (queue s d)) (used_reels s)"

text \<open>A series of drain calls, each with its clock reading and publish outcome.\<close>

fun drains :: "(datetime \<times> bool) list \<Rightarrow> store \<Rightarrow> store" where
  "drains [] s = s"
| "drains ((now, ok) # cs) s = drains cs (upload_next_reel now ok s)"

text \<open>Removing position \<open>j\<close> of a list moves the later positions down by one.\<close>

definition skip :: "nat \<Rightarrow> nat \<Rightarrow> nat" where
  "skip j q = (if q < j then q else Suc q)"

subsection \<open>Concrete inputs\<close>

definition evening :: datetime where
  "evening = \<lparr>year = 2024, month = 1, day = 1, hour = 21, minute = 0, second = 0\<rparr>"

definition next_morning :: datetime where
  "next_morning = \<lparr>year = 2024, month = 1, day = 2, hour = 7, minute = 30, second = 0\<rparr>"

definition reel_A :: reel_data where
  "reel_A = \<lparr>file_path = ''downloaded_reels/A.mp4'', description = ''first'', url = ''p/A/''\<rparr>"

definition reel_B :: reel_data where
  "reel_B = \<lparr>file_path = ''downloaded_reels/B.mp4'', description = ''second'', url = ''p/B/''\<rparr>"

text \<open>Seven listed references, one of them twice, and one already used.\<close>

definition pool_store :: store where
  "pool_store =
     \<lparr>reels_json = Listing [''p/1/'', ''p/2/'', ''p/1/'', ''p/3/'', ''p/4/'', ''p/5/'', ''p/6/''],
      used_json = Listing [''p/2/''],
      daily_json = (\<lambda>d. Absent),
      description_xlsx = Listing [],
      media = {},
      unremovable = {},
      clip_uploads = [],
      log = []\<rparr>"

text \<open>Three references left: fewer than the daily limit.\<close>

definition short_store :: store where
  "short_store =
     \<lparr>reels_json = Listing [''p/1/'', ''p/2/'', ''p/3/'', ''p/4/''],
      used_json = Listing [''p/4/''],
      daily_json = (\<lambda>d. Absent),
      description_xlsx = Listing [],
      media = {},
      unremovable = {},
      clip_uploads = [],
      log = []\<rparr>"

text \<open>A prepared day: two entries queued for 2024-01-01, both on disk and in the ledger.\<close>

definition queue_store :: store where
  "queue_store =
     \<lparr>reels_json = Listing [''p/A/'', ''p/B/'', ''p/C/''],
      used_json = Listing [''p/A/'', ''p/B/''],
      daily_json = (\<lambda>d. if d = ''2024-01-01'' then Listing [reel_A, reel_B] else Absent),
      description_xlsx =
        Listing [\<lparr>URL = ''p/A/'', Description = ''first'',
                   Download_Date = ''2024-01-01 00:01:07'', Upload_Date = []\<rparr>,
                 \<lparr>URL = ''p/B/'', Description = ''second'',
                   Download_Date = ''2024-01-01 00:01:09'', Upload_Date = []\<rparr>],
      media = {''downloaded_reels/A.mp4'', ''downloaded_reels/B.mp4''},
      unremovable = {},
      clip_uploads = [],
      log = []\<rparr>"

text \<open>A fetch collaborator that fails on every reference, and one that delivers a video.\<close>

definition offline :: "string \<Rightarrow> instagram" where
  "offline c = \<lparr>from_shortcode = None, download_post = False, listed_mp4 = None\<rparr>"

definition online :: "string \<Rightarrow> instagram" where
  "online c = \<lparr>from_shortcode = Some \<lparr>caption = Some ''hello'', is_video = True\<rparr>,
                download_post = True,
                listed_mp4 = Some (''downloaded_reels/'' @ c @ ''.mp4'')\<rparr>"

definition first_left :: "nat \<Rightarrow> nat" where
  "first_left i = 0"

text \<open>Draws that take the first position once and the second position ever after.\<close>

definition one_copy :: "nat \<Rightarrow> nat" where
  "one_copy i = (if i = 4 then 0 else 1)"



text \<open>A fetch collaborator that delivers the post with shortcode 3 and nothing else.\<close>

definition only_3 :: "string \<Rightarrow> instagram" where
  "only_3 c = (if c = ''3'' then online c else offline c)"

section \<open>Auxiliary facts\<close>

lemma py_in_set: "py_in x xs = (x \<in> set xs)"
  by (induction xs) auto

lemma not_used_filter: "not_used xs us = filter (\<lambda>r. r \<notin> set us) xs"
  by (induction xs) (auto simp: py_in_set)

lemma available_filter:
  "available s = filter (\<lambda>r. r \<notin> set (used_reels s)) (all_reels s)"
  by (simp add: available_def get_available_reels_def all_reels_def used_reels_def
      not_used_filter split: prod.splits)

lemma get_available_reels_eq:
  "get_available_reels s =
     (available s, logger (snd (load_json_file ''reels.json'' (reels_json s))
                           @ snd (load_json_file ''used.json'' (used_json s))) s)"
  by (simp add: available_def get_available_reels_def split: prod.splits)


lemma nth_without:
  assumes "j < length p" "q < length p - 1"
  shows "(take j p @ drop (Suc j) p) ! q = p ! skip j q"
  using assms by (auto simp: nth_append skip_def min_def)

lemma skip_inj: "skip j q = skip j q' \<Longrightarrow> q = q'"
  by (auto simp: skip_def split: if_splits)

lemma skip_neq: "skip j q \<noteq> j"
  by (auto simp: skip_def)

lemma draw_positions:
  "\<exists>ps. draw rnd k pool = map ((!) pool) ps \<and> distinct ps
        \<and> (\<forall>p \<in> set ps. p < length pool) \<and> length ps = min k (length pool)"
proof (induction k arbitrary: pool)
  case 0
  show ?case by simp
next
  case (Suc k)
  show ?case
  proof (cases pool)
    case Nil
    then show ?thesis by simp
  next
    case (Cons x xs)
    define j where "j = rnd k mod length pool"
    define rest where "rest = take j pool @ drop (Suc j) pool"
    have j: "j < length pool" using Cons by (simp add: j_def)
    have lrest: "length rest = length pool - 1" using j by (simp add: rest_def)
    from Suc.IH [of rest] obtain ps where
      ps: "draw rnd k rest = map ((!) rest) ps" "distinct ps"
          "\<forall>p \<in> set ps. p < length rest" "length ps = min k (length rest)"
      by blast
    have eq: "map ((!) rest) ps = map ((!) pool) (map (skip j) ps)"
      using ps(3) j lrest by (auto simp: rest_def nth_without)
    have "j \<notin> set (map (skip j) ps)"
      by (auto simp: skip_def)
    moreover have "distinct (map (skip j) ps)"
      using ps(2) by (auto simp: distinct_map intro!: inj_onI dest: skip_inj)
    ultimately have d: "distinct (j # map (skip j) ps)"
      by simp
    have b: "\<forall>p \<in> set (j # map (skip j) ps). p < length pool"
      using ps(3) j lrest by (auto simp: skip_def)
    have l: "length (j # map (skip j) ps) = min (Suc k) (length pool)"
      using ps(4) lrest j by simp
    have "draw rnd (Suc k) pool = pool ! j # draw rnd k rest"
      using Cons by (simp add: j_def rest_def Let_def)
    then have "draw rnd (Suc k) pool = map ((!) pool) (j # map (skip j) ps)"
      using ps(1) eq by simp
    with d b l show ?thesis by blast
  qed
qed

lemma map_nth_distinct_mset:
  "distinct ps \<Longrightarrow> \<forall>p \<in> set ps. p < length pool \<Longrightarrow> mset (map ((!) pool) ps) \<subseteq># mset pool"
proof -
  assume d: "distinct ps" and b: "\<forall>p \<in> set ps. p < length pool"
  have "mset_set (set ps) \<subseteq># mset_set {0..<length pool}"
    by (rule subset_imp_msubset_mset_set) (use b in auto)
  then have "mset ps \<subseteq># mset [0..<length pool]"
    using d by (simp add: mset_set_set)
  then have "image_mset ((!) pool) (mset ps) \<subseteq># image_mset ((!) pool) (mset [0..<length pool])"
    by (rule image_mset_subseteq_mono)
  then have "mset (map ((!) pool) ps) \<subseteq># mset (map ((!) pool) [0..<length pool])"
    by (simp only: mset_map)
  then show ?thesis by (simp only: map_nth)
qed


lemma map_nth_distinct_distinct:
  "distinct ps \<Longrightarrow> \<forall>p \<in> set ps. p < length pool \<Longrightarrow> distinct pool
     \<Longrightarrow> distinct (map ((!) pool) ps)"
  by (auto simp: distinct_map inj_on_def nth_eq_iff_index_eq)

lemma random_sample_enough:
  assumes "k \<le> length pool"
  shows "\<exists>ps. random_sample rnd pool k = Inr (map ((!) pool) ps) \<and> distinct ps
            \<and> (\<forall>p \<in> set ps. p < length pool) \<and> length ps = k"
  using draw_positions [of rnd k pool] assms by (auto simp: random_sample_def min_def)

subsection \<open>The download loop touches neither the lists nor the queue\<close>

lemma download_reel_frame:
  assumes "download_reel now world u s = (r, s')"
  shows "reels_json s' = reels_json s \<and> used_json s' = used_json s
         \<and> daily_json s' = daily_json s \<and> clip_uploads s' = clip_uploads s"
  using assms
  by (auto simp: download_reel_def extract_reel_info_def save_description_to_excel_def
      logger_def Let_def split: option.splits if_splits disk_file.splits)

lemma download_reel_url:
  assumes "download_reel now world u s = (Some rd, s')"
  shows "url rd = u"
  using assms
  by (auto simp: download_reel_def extract_reel_info_def Let_def
      split: option.splits if_splits)

lemma download_loop_frame:
  "download_loop now world us acc s = (res, s') \<Longrightarrow>
     reels_json s' = reels_json s \<and> used_json s' = used_json s
     \<and> daily_json s' = daily_json s \<and> clip_uploads s' = clip_uploads s"
proof (induction us arbitrary: acc s)
  case Nil
  then show ?case by simp
next
  case (Cons u us)
  obtain r s1 where r: "download_reel now world u s = (r, s1)"
    by (cases "download_reel now world u s")
  from download_reel_frame [OF r] Cons.IH Cons.prems r show ?case
    by (cases r) (auto split: prod.splits)
qed

lemma download_reel_fetched: "fst (download_reel now world u s) = fetched_entry world u"
  by (simp add: download_reel_def extract_reel_info_def fetched_entry_def Let_def
      split: option.splits)

lemma download_loop_fetched:
  "fst (download_loop now world us acc s) = acc @ List.map_filter (fetched_entry world) us"
proof (induction us arbitrary: acc s)
  case Nil
  show ?case by (simp add: List.map_filter_simps)
next
  case (Cons u us)
  obtain r s1 where r: "download_reel now world u s = (r, s1)"
    by (cases "download_reel now world u s")
  with download_reel_fetched [of now world u s] have f: "fetched_entry world u = r" by simp
  show ?case
  proof (cases r)
    case None
    with r f Cons.IH [of acc s1] show ?thesis
      by (simp add: List.map_filter_simps)
  next
    case (Some rd)
    with r f Cons.IH [of "acc @ [rd]" s1] show ?thesis
      by (simp add: List.map_filter_simps)
  qed
qed

lemma download_loop_result:
  "download_loop now world us acc s = (res, s') \<Longrightarrow>
     \<exists>new. res = acc @ new \<and> subseq (map url new) us"
proof (induction us arbitrary: acc s)
  case Nil
  then show ?case by simp
next
  case (Cons u us)
  obtain r s1 where r: "download_reel now world u s = (r, s1)"
    by (cases "download_reel now world u s")
  show ?case
  proof (cases r)
    case None
    with Cons.prems r have "download_loop now world us acc s1 = (res, s')" by simp
    from Cons.IH [OF this] show ?thesis by auto
  next
    case (Some rd)
    with Cons.prems r have "download_loop now world us (acc @ [rd]) s1 = (res, s')" by simp
    from Cons.IH [OF this] obtain new where
      new: "res = (acc @ [rd]) @ new" "subseq (map url new) us" by blast
    have "url rd = u" using r Some download_reel_url by blast
    with new have "res = acc @ (rd # new) \<and> subseq (map url (rd # new)) (u # us)"
      by simp
    then show ?thesis by blast
  qed
qed


lemma process_daily_reels_insufficient:
  assumes "length (available s) < limit"
  shows "process_daily_reels limit now rnd world s =
           Inr ([], logger [Not_enough_reels (length (available s))]
                      (snd (get_available_reels s)))"
  using assms by (simp add: process_daily_reels_def get_available_reels_eq)

lemma process_daily_reels_enough:
  assumes "limit \<le> length (available s)"
    and "random_sample rnd (available s) limit = Inr selected"
  shows "\<exists>batch s'.
           process_daily_reels limit now rnd world s = Inr (batch, s')
           \<and> reels_json s' = reels_json s
           \<and> used_json s' = Listing (used_reels s @ selected)
           \<and> daily_json s' = (daily_json s)(strftime_date now := Listing batch)
           \<and> clip_uploads s' = clip_uploads s
           \<and> subseq (map url batch) selected
           \<and> batch = List.map_filter (fetched_entry world) selected"
proof -
  define s1 where "s1 = snd (get_available_reels s)"
  obtain batch s2 where loop: "download_loop now world selected [] s1 = (batch, s2)"
    by (cases "download_loop now world selected [] s1")
  have s1: "reels_json s1 = reels_json s" "used_json s1 = used_json s"
    "daily_json s1 = daily_json s" "clip_uploads s1 = clip_uploads s"
    by (simp_all add: s1_def get_available_reels_eq logger_def)
  from download_loop_frame [OF loop] s1
  have s2: "reels_json s2 = reels_json s" "used_json s2 = used_json s"
    "daily_json s2 = daily_json s" "clip_uploads s2 = clip_uploads s"
    by simp_all
  from download_loop_result [OF loop] have sub: "subseq (map url batch) selected"
    by auto
  obtain used ev where ld: "load_json_file ''used.json'' (used_json s) = (used, ev)"
    by (cases "load_json_file ''used.json'' (used_json s)")
  then have used: "used = used_reels s" by (simp add: used_reels_def)
  have ga: "get_available_reels s = (available s, s1)"
    by (simp add: s1_def get_available_reels_eq)
  define s' where "s' = logger [Prepared_reels (length batch)]
     ((logger ev s2)\<lparr>used_json := save_json_file (used @ selected),
        daily_json := (daily_json s2)(strftime_date now := save_json_file batch)\<rparr>)"
  have "process_daily_reels limit now rnd world s = Inr (batch, s')"
    using assms ga loop ld s2
    by (simp add: process_daily_reels_def s'_def Let_def logger_def)
  moreover have "reels_json s' = reels_json s" "used_json s' = Listing (used_reels s @ selected)"
    "daily_json s' = (daily_json s)(strftime_date now := Listing batch)"
    "clip_uploads s' = clip_uploads s"
    using s2 used by (simp_all add: s'_def logger_def save_json_file_def)
  moreover have "batch = List.map_filter (fetched_entry world) selected"
    using download_loop_fetched [of now world selected "[]" s1] loop by simp
  ultimately show ?thesis using sub by blast
qed

lemma process_daily_reels_returns:
  "\<exists>batch s'. process_daily_reels limit now rnd world s = Inr (batch, s')"
proof (cases "length (available s) < limit")
  case True
  then show ?thesis by (simp add: process_daily_reels_insufficient)
next
  case False
  then have le: "limit \<le> length (available s)" by simp
  from random_sample_enough [OF le] obtain sel where
    "random_sample rnd (available s) limit = Inr sel" by blast
  from process_daily_reels_enough [OF le this] show ?thesis by blast
qed


subsection \<open>One drain call, case by case\<close>

lemma queue_Cons:
  "queue s d = rd # rest \<longleftrightarrow> daily_json s d = Listing (rd # rest)"
  by (cases "daily_json s d") (auto simp: queue_def)

lemma queue_Nil:
  "queue s d = [] \<longleftrightarrow>
     daily_json s d = Absent \<or> daily_json s d = Malformed \<or> daily_json s d = Listing []"
  by (cases "daily_json s d") (auto simp: queue_def)

lemma upload_next_reel_empty:
  assumes "queue s (strftime_date now) = []"
  shows "\<exists>evs. upload_next_reel now ok s = logger evs s"
  using assms unfolding queue_Nil
  by (auto simp: upload_next_reel_def Let_def logger_def)

lemma upload_next_reel_failure:
  assumes "queue s (strftime_date now) = rd # rest"
  shows "upload_next_reel now False s =
           s\<lparr>clip_uploads := clip_uploads s @ [(file_path rd, description rd)],
              log := log s @ [Failed_to_upload (file_path rd)]\<rparr>"
proof -
  have d: "daily_json s (strftime_date now) = Listing (rd # rest)"
    using assms by (simp add: queue_Cons)
  then have "(daily_json s)(strftime_date now := Listing (rd # rest)) = daily_json s"
    by (auto simp: fun_eq_iff)
  then show ?thesis using d
    by (simp add: upload_next_reel_def upload_reel_def Let_def logger_def save_json_file_def)
qed

lemma update_upload_date_frame:
  "reels_json (update_upload_date_in_excel now u s) = reels_json s"
  "used_json (update_upload_date_in_excel now u s) = used_json s"
  "daily_json (update_upload_date_in_excel now u s) = daily_json s"
  "media (update_upload_date_in_excel now u s) = media s"
  "unremovable (update_upload_date_in_excel now u s) = unremovable s"
  "clip_uploads (update_upload_date_in_excel now u s) = clip_uploads s"
  by (auto simp: update_upload_date_in_excel_def logger_def split: disk_file.splits)

lemma update_upload_date_rows:
  "ledger_rows (update_upload_date_in_excel now u s) =
     map (set_upload_date u (strftime_datetime now)) (ledger_rows s)"
  by (auto simp: update_upload_date_in_excel_def ledger_rows_def logger_def
      split: disk_file.splits)

lemma ledger_rows_cong: "description_xlsx s' = description_xlsx s \<Longrightarrow> ledger_rows s' = ledger_rows s"
  by (simp add: ledger_rows_def)

text \<open>The upload went through and the file, if there, was removed: the head is committed.\<close>

lemma upload_next_reel_success:
  assumes "queue s (strftime_date now) = rd # rest"
    and "\<not> remove_raises s (file_path rd)"
  shows "upload_next_reel now True s =
           (let s2 = update_upload_date_in_excel now (url rd)
                       (s\<lparr>clip_uploads := clip_uploads s @ [(file_path rd, description rd)]\<rparr>);
                s3 = logger [Successfully_uploaded (file_path rd)] s2;
                s4 = (if file_path rd \<in> media s3
                      then logger [Deleted_video_file (file_path rd)]
                             (s3\<lparr>media := media s3 - {file_path rd}\<rparr>)
                      else s3)
            in s4\<lparr>daily_json := (daily_json s4)(strftime_date now := Listing rest)\<rparr>)"
proof -
  have d: "daily_json s (strftime_date now) = Listing (rd # rest)"
    using assms(1) by (simp add: queue_Cons)
  have r: "file_path rd \<in> media s \<longrightarrow> file_path rd \<notin> unremovable s"
    using assms(2) by (simp add: remove_raises_def)
  show ?thesis using d r
    by (simp add: upload_next_reel_def upload_reel_def Let_def logger_def save_json_file_def
        update_upload_date_frame)
qed

lemma upload_next_reel_success_fields:
  assumes "queue s (strftime_date now) = rd # rest"
    and "\<not> remove_raises s (file_path rd)"
  shows "reels_json (upload_next_reel now True s) = reels_json s"
    and "used_json (upload_next_reel now True s) = used_json s"
    and "daily_json (upload_next_reel now True s) = (daily_json s)(strftime_date now := Listing rest)"
    and "media (upload_next_reel now True s) = media s - {file_path rd}"
    and "clip_uploads (upload_next_reel now True s) = clip_uploads s @ [(file_path rd, description rd)]"
    and "ledger_rows (upload_next_reel now True s) =
           map (set_upload_date (url rd) (strftime_datetime now)) (ledger_rows s)"
  unfolding upload_next_reel_success [OF assms]
  by (auto simp: Let_def logger_def ledger_rows_def update_upload_date_in_excel_def
      split: disk_file.splits)

text \<open>The upload went through but removing the file raised: the head is put back.\<close>

lemma upload_next_reel_remove_raises:
  assumes "queue s (strftime_date now) = rd # rest"
    and "remove_raises s (file_path rd)"
  shows "upload_next_reel now True s =
           logger [Successfully_uploaded (file_path rd), Failed_to_upload (file_path rd)]
             (update_upload_date_in_excel now (url rd)
                (s\<lparr>clip_uploads := clip_uploads s @ [(file_path rd, description rd)]\<rparr>))"
proof -
  have d: "daily_json s (strftime_date now) = Listing (rd # rest)"
    using assms(1) by (simp add: queue_Cons)
  then have same: "(daily_json s)(strftime_date now := Listing (rd # rest)) = daily_json s"
    by (auto simp: fun_eq_iff)
  have r: "file_path rd \<in> media s" "file_path rd \<in> unremovable s"
    using assms(2) by (simp_all add: remove_raises_def)
  show ?thesis using d r same
    by (simp add: upload_next_reel_def upload_reel_def Let_def logger_def save_json_file_def
        update_upload_date_frame)
qed

lemma upload_next_reel_remove_raises_fields:
  assumes "queue s (strftime_date now) = rd # rest"
    and "remove_raises s (file_path rd)"
  shows "reels_json (upload_next_reel now True s) = reels_json s"
    and "used_json (upload_next_reel now True s) = used_json s"
    and "daily_json (upload_next_reel now True s) = daily_json s"
    and "media (upload_next_reel now True s) = media s"
    and "clip_uploads (upload_next_reel now True s) = clip_uploads s @ [(file_path rd, description rd)]"
    and "ledger_rows (upload_next_reel now True s) =
           map (set_upload_date (url rd) (strftime_datetime now)) (ledger_rows s)"
  unfolding upload_next_reel_remove_raises [OF assms]
  by (auto simp: logger_def ledger_rows_def update_upload_date_in_excel_def
      split: disk_file.splits)

text \<open>The four ways a drain call can go.\<close>

lemma upload_next_reel_cases:
  obtains (idle) evs where "queue s (strftime_date now) = []"
      and "upload_next_reel now ok s = logger evs s"
    | (failed) rd rest where "queue s (strftime_date now) = rd # rest" and "\<not> ok"
      and "upload_next_reel now ok s =
             s\<lparr>clip_uploads := clip_uploads s @ [(file_path rd, description rd)],
                log := log s @ [Failed_to_upload (file_path rd)]\<rparr>"
    | (put_back) rd rest where "queue s (strftime_date now) = rd # rest" and ok
      and "remove_raises s (file_path rd)"
      and "reels_json (upload_next_reel now ok s) = reels_json s"
      and "used_json (upload_next_reel now ok s) = used_json s"
      and "daily_json (upload_next_reel now ok s) = daily_json s"
      and "clip_uploads (upload_next_reel now ok s)
             = clip_uploads s @ [(file_path rd, description rd)]"
    | (published) rd rest where "queue s (strftime_date now) = rd # rest" and ok
      and "\<not> remove_raises s (file_path rd)"
      and "reels_json (upload_next_reel now ok s) = reels_json s"
      and "used_json (upload_next_reel now ok s) = used_json s"
      and "daily_json (upload_next_reel now ok s)
             = (daily_json s)(strftime_date now := Listing rest)"
      and "clip_uploads (upload_next_reel now ok s)
             = clip_uploads s @ [(file_path rd, description rd)]"
proof (cases "queue s (strftime_date now)")
  case Nil
  from upload_next_reel_empty [OF Nil, of ok] Nil idle show ?thesis by blast
next
  case (Cons rd rest)
  show ?thesis
  proof (cases ok)
    case False
    with upload_next_reel_failure [OF Cons] Cons failed show ?thesis
      by simp
  next
    case True
    show ?thesis
    proof (cases "remove_raises s (file_path rd)")
      case stuck: True
      from upload_next_reel_remove_raises_fields(1,2,3,5) [OF Cons stuck] Cons True stuck
      show ?thesis by (intro put_back [of rd rest]) simp_all
    next
      case free: False
      from upload_next_reel_success_fields(1,2,3,5) [OF Cons free] Cons True free
      show ?thesis by (intro published [of rd rest]) simp_all
    qed
  qed
qed


lemma count_list_filter:
  "count_list (filter P xs) r = (if P r then count_list xs r else 0)"
  by (induction xs) auto

lemma available_not_used: "set (available s) \<inter> set (used_reels s) = {}"
  by (auto simp: available_filter)

lemma get_available_reels_persisted:
  "persisted (snd (get_available_reels s)) = persisted s"
  "clip_uploads (snd (get_available_reels s)) = clip_uploads s"
  "log (snd (get_available_reels s)) =
     log s @ snd (load_json_file ''reels.json'' (reels_json s))
           @ snd (load_json_file ''used.json'' (used_json s))"
  by (simp_all add: get_available_reels_eq persisted_def logger_def)

lemma used_reels_Listing: "used_json s = Listing us \<Longrightarrow> used_reels s = us"
  by (simp add: used_reels_def)

lemma queue_Listing: "daily_json s d = Listing q \<Longrightarrow> queue s d = q"
  by (simp add: queue_def)

subsection \<open>The used list only grows\<close>

lemma upload_next_reel_frame:
  "reels_json (upload_next_reel now ok s) = reels_json s"
  "used_json (upload_next_reel now ok s) = used_json s"
proof -
  have "reels_json (upload_next_reel now ok s) = reels_json s
        \<and> used_json (upload_next_reel now ok s) = used_json s"
  proof (cases rule: upload_next_reel_cases [of s now ok])
    case (idle evs)
    then show ?thesis by (simp add: logger_def)
  next
    case (failed rd rest)
    then show ?thesis by simp
  next
    case (put_back rd rest)
    then show ?thesis by simp
  next
    case (published rd rest)
    then show ?thesis by simp
  qed
  then show "reels_json (upload_next_reel now ok s) = reels_json s"
    and "used_json (upload_next_reel now ok s) = used_json s"
    by simp_all
qed

lemma process_daily_reels_used_grows:
  assumes "process_daily_reels limit now rnd world s = Inr (batch, s')"
  shows "set (used_reels s) \<subseteq> set (used_reels s')"
proof (cases "length (available s) < limit")
  case True
  from process_daily_reels_insufficient [OF True, of now rnd world] assms
  have "used_json s' = used_json s"
    by (auto simp: get_available_reels_eq logger_def)
  then show ?thesis by (simp add: used_reels_def)
next
  case False
  then have le: "limit \<le> length (available s)" by simp
  from random_sample_enough [OF le, of rnd] obtain sel where
    sel: "random_sample rnd (available s) limit = Inr sel" by blast
  from process_daily_reels_enough [OF le sel, of now world] assms
  have "used_json s' = Listing (used_reels s @ sel)" by auto
  then show ?thesis by (simp add: used_reels_def)
qed

lemma run_call_used_grows:
  "\<exists>s'. run_call limit c s = Inr s' \<and> set (used_reels s) \<subseteq> set (used_reels s')"
proof (cases c)
  case (Drain now ok)
  then show ?thesis
    by (simp add: used_reels_def upload_next_reel_frame)
next
  case (Prepare now rnd world)
  from process_daily_reels_returns [of limit now rnd world s] obtain batch s' where
    r: "process_daily_reels limit now rnd world s = Inr (batch, s')" by blast
  from process_daily_reels_used_grows [OF r] r Prepare show ?thesis by simp
qed

lemma run_calls_used_grows:
  "\<exists>s'. run_calls limit cs s = Inr s' \<and> set (used_reels s) \<subseteq> set (used_reels s')"
proof (induction cs arbitrary: s)
  case Nil
  show ?case by simp
next
  case (Cons c cs)
  from run_call_used_grows [of limit c s] obtain s1 where
    s1: "run_call limit c s = Inr s1" "set (used_reels s) \<subseteq> set (used_reels s1)" by blast
  from Cons.IH [of s1] obtain s' where
    s': "run_calls limit cs s1 = Inr s'" "set (used_reels s1) \<subseteq> set (used_reels s')" by blast
  from s1 s' show ?case by auto
qed

subsection \<open>Series of drain calls\<close>

lemma upload_next_reel_idle:
  assumes "daily_json s (strftime_date now) = Absent \<or> daily_json s (strftime_date now) = Listing []"
  shows "\<exists>e. upload_next_reel now ok s = logger [e] s \<and> level_of e = INFO"
  using assms by (auto simp: upload_next_reel_def Let_def logger_def)

lemma drains_idle:
  assumes "\<forall>c \<in> set cs. daily_json s (strftime_date (fst c)) = Absent
                        \<or> daily_json s (strftime_date (fst c)) = Listing []"
  shows "\<exists>evs. drains cs s = logger evs s \<and> length evs = length cs
               \<and> (\<forall>e \<in> set evs. level_of e = INFO)"
  using assms
proof (induction cs arbitrary: s)
  case Nil
  show ?case by (simp add: logger_def)
next
  case (Cons c cs)
  obtain now ok where c: "c = (now, ok)" by (cases c)
  from Cons.prems c have
    "daily_json s (strftime_date now) = Absent \<or> daily_json s (strftime_date now) = Listing []"
    by simp
  from upload_next_reel_idle [OF this, of ok] obtain e where
    e: "upload_next_reel now ok s = logger [e] s" "level_of e = INFO" by blast
  have "\<forall>c \<in> set cs. daily_json (logger [e] s) (strftime_date (fst c)) = Absent
                      \<or> daily_json (logger [e] s) (strftime_date (fst c)) = Listing []"
    using Cons.prems by (simp add: logger_def)
  from Cons.IH [OF this] obtain evs where
    evs: "drains cs (logger [e] s) = logger evs (logger [e] s)" "length evs = length cs"
      "\<forall>e \<in> set evs. level_of e = INFO" by blast
  have "drains (c # cs) s = logger (e # evs) s"
    using c e(1) evs(1) by (simp add: logger_def)
  with e(2) evs(2,3) show ?case
    by (intro exI [of _ "e # evs"]) simp
qed

lemma queue_cong: "daily_json s' = daily_json s \<Longrightarrow> queue s' d = queue s d"
  by (simp add: queue_def)

lemma drains_failures:
  assumes "queue s today = rd # rest"
    and "\<forall>c \<in> set cs. strftime_date (fst c) = today \<and> \<not> snd c"
  shows "persisted (drains cs s) = persisted s
         \<and> clip_uploads (drains cs s)
             = clip_uploads s @ replicate (length cs) (file_path rd, description rd)"
  using assms
proof (induction cs arbitrary: s)
  case Nil
  show ?case by simp
next
  case (Cons c cs)
  obtain now ok where c: "c = (now, ok)" by (cases c)
  with Cons.prems have now: "strftime_date now = today" and ok: "\<not> ok" by simp_all
  define s1 where "s1 = upload_next_reel now ok s"
  from Cons.prems(1) now have q: "queue s (strftime_date now) = rd # rest" by simp
  from upload_next_reel_failure [OF q] ok
  have s1: "s1 = s\<lparr>clip_uploads := clip_uploads s @ [(file_path rd, description rd)],
                   log := log s @ [Failed_to_upload (file_path rd)]\<rparr>"
    by (simp add: s1_def)
  then have p1: "persisted s1 = persisted s"
    and u1: "clip_uploads s1 = clip_uploads s @ [(file_path rd, description rd)]"
    and q1: "queue s1 today = rd # rest"
    using Cons.prems(1) by (simp_all add: persisted_def queue_def)
  from Cons.prems(2) have "\<forall>c \<in> set cs. strftime_date (fst c) = today \<and> \<not> snd c" by simp
  from Cons.IH [OF q1 this] p1 u1 c show ?case
    by (simp add: s1_def replicate_app_Cons_same)
qed

lemma persisted_queue: "persisted s' = persisted s \<Longrightarrow> queue s' d = queue s d"
  by (simp add: persisted_def queue_def)

lemma upload_next_reel_calls_head:
  assumes "queue s (strftime_date now) = rd # rest"
  shows "clip_uploads (upload_next_reel now ok s)
           = clip_uploads s @ [(file_path rd, description rd)]"
proof (cases rule: upload_next_reel_cases [of s now ok])
  case (idle evs)
  with assms show ?thesis by simp
next
  case (failed rd' rest')
  with assms show ?thesis by simp
next
  case (put_back rd' rest')
  with assms show ?thesis by simp
next
  case (published rd' rest')
  with assms show ?thesis by simp
qed

lemma strftime_date_evening: "strftime_date evening = ''2024-01-01''"
  by (simp add: strftime_date_def evening_def pad4_def pad2_def digit_def)

lemma strftime_date_next_morning: "strftime_date next_morning = ''2024-01-02''"
  by (simp add: strftime_date_def next_morning_def pad4_def pad2_def digit_def)

lemma queue_store_evening: "queue queue_store (strftime_date evening) = reel_A # [reel_B]"
  by (simp add: strftime_date_evening queue_def queue_store_def)

lemma available_pool_store:
  "available pool_store = [''p/1/'', ''p/1/'', ''p/3/'', ''p/4/'', ''p/5/'', ''p/6/'']"
  by (simp add: available_def get_available_reels_def pool_store_def logger_def)

lemma py_subset_set: "py_subset xs ys = (set xs \<subseteq> set ys)"
  by (induction xs) (auto simp: py_in_set)

lemma queue_refs_used_iff:
  "queue_refs_used s d \<longleftrightarrow> url ` set (queue s d) \<subseteq> set (used_reels s)"
  by (simp add: queue_refs_used_def py_subset_set)

lemma subseq_set_subset: "subseq xs ys \<Longrightarrow> set xs \<subseteq> set ys"
  by (induction rule: list_emb.induct) auto

subsection \<open>What one call does to the queue of its date\<close>

lemma upload_next_reel_queue:
  fixes s :: store and now :: datetime and ok :: bool
  defines "today \<equiv> strftime_date now" and "s' \<equiv> upload_next_reel now ok s"
  shows "(queue s' today = queue s today \<or> (\<exists>rd. queue s today = rd # queue s' today))
         \<and> suffix (queue s' today) (queue s today)
         \<and> (\<forall>d. d \<noteq> today \<longrightarrow> daily_json s' d = daily_json s d)
         \<and> (clip_uploads s' = clip_uploads s
              \<or> (\<exists>rd rest. queue s today = rd # rest
                    \<and> clip_uploads s' = clip_uploads s @ [(file_path rd, description rd)]))
         \<and> (queue_refs_used s today \<longrightarrow> queue_refs_used s' today)"
proof (cases rule: upload_next_reel_cases [of s now ok])
  case (idle evs)
  then have "s' = logger evs s" by (simp add: s'_def)
  then show ?thesis
    by (simp add: logger_def queue_def queue_refs_used_iff used_reels_def)
next
  case (failed rd rest)
  then have "s' = s\<lparr>clip_uploads := clip_uploads s @ [(file_path rd, description rd)],
                     log := log s @ [Failed_to_upload (file_path rd)]\<rparr>"
    by (simp add: s'_def)
  with failed(1) show ?thesis
    by (simp add: queue_def queue_refs_used_iff used_reels_def today_def)
next
  case (put_back rd rest)
  have d: "daily_json s' = daily_json s"
    using put_back(6) by (simp add: s'_def)
  have u: "used_reels s' = used_reels s"
    using put_back(5) by (simp add: s'_def used_reels_def)
  have c: "clip_uploads s' = clip_uploads s @ [(file_path rd, description rd)]"
    using put_back(7) by (simp add: s'_def)
  have q: "queue s today = rd # rest"
    using put_back(1) by (simp add: today_def)
  have q': "queue s' today = queue s today"
    using d by (simp add: queue_def)
  have "\<forall>d. d \<noteq> today \<longrightarrow> daily_json s' d = daily_json s d"
    using d by simp
  moreover have "queue_refs_used s today \<longrightarrow> queue_refs_used s' today"
    unfolding queue_refs_used_iff q' u by simp
  ultimately show ?thesis
    using q q' c by auto
next
  case (published rd rest)
  have d: "daily_json s' = (daily_json s)(today := Listing rest)"
    using published(6) by (simp add: s'_def today_def)
  have u: "used_reels s' = used_reels s"
    using published(5) by (simp add: s'_def used_reels_def)
  have c: "clip_uploads s' = clip_uploads s @ [(file_path rd, description rd)]"
    using published(7) by (simp add: s'_def)
  have q: "queue s today = rd # rest"
    using published(1) by (simp add: today_def)
  have q': "queue s' today = rest"
    using d by (simp add: queue_def)
  have "suffix (queue s' today) (queue s today)"
    unfolding q q' by (simp add: suffix_ConsI)
  moreover have "\<forall>d. d \<noteq> today \<longrightarrow> daily_json s' d = daily_json s d"
    using d by simp
  moreover have "queue_refs_used s today \<longrightarrow> queue_refs_used s' today"
    unfolding queue_refs_used_iff q q' u by auto
  ultimately show ?thesis
    using q q' c by blast
qed

lemma process_daily_reels_queue:
  fixes s :: store and now :: datetime
  defines "today \<equiv> strftime_date now"
  shows "\<exists>batch s1. process_daily_reels limit now rnd world s = Inr (batch, s1)
           \<and> (\<forall>d. d \<noteq> today \<longrightarrow> daily_json s1 d = daily_json s d)
           \<and> (daily_json s1 today = daily_json s today
                \<or> queue s1 today = batch
                  \<and> (queue_refs_used s today \<longrightarrow>
                       set (map url batch) \<inter> set (map url (queue s today)) = {}))
           \<and> (queue_refs_used s today \<longrightarrow> queue_refs_used s1 today)"
proof (cases "length (available s) < limit")
  case True
  define s1 where "s1 = logger [Not_enough_reels (length (available s))]
                          (snd (get_available_reels s))"
  have run: "process_daily_reels limit now rnd world s = Inr ([], s1)"
    using process_daily_reels_insufficient [OF True] by (simp add: s1_def)
  have same: "daily_json s1 = daily_json s" "used_json s1 = used_json s"
    by (simp_all add: s1_def get_available_reels_eq logger_def)
  then have "queue_refs_used s today \<longrightarrow> queue_refs_used s1 today"
    by (simp add: queue_refs_used_iff queue_def used_reels_def)
  with run same show ?thesis by simp
next
  case False
  then have le: "limit \<le> length (available s)" by simp
  from random_sample_enough [OF le, of rnd] obtain ps where
    sel: "random_sample rnd (available s) limit = Inr (map ((!) (available s)) ps)"
    and ps: "\<forall>p \<in> set ps. p < length (available s)"
    by blast
  define selected where "selected = map ((!) (available s)) ps"
  have in_pool: "set selected \<subseteq> set (available s)"
    using ps by (auto simp: selected_def)
  from process_daily_reels_enough [OF le sel [folded selected_def], of now world]
  obtain batch s1 where
    run: "process_daily_reels limit now rnd world s = Inr (batch, s1)"
    and used: "used_json s1 = Listing (used_reels s @ selected)"
    and daily: "daily_json s1 = (daily_json s)(today := Listing batch)"
    and order: "subseq (map url batch) selected"
    unfolding today_def by blast
  have q1: "queue s1 today = batch"
    using daily by (simp add: queue_def)
  have refs: "set (map url batch) \<subseteq> set selected"
    using order by (rule subseq_set_subset)
  have fresh: "queue_refs_used s today \<longrightarrow>
                 set (map url batch) \<inter> set (map url (queue s today)) = {}"
  proof
    assume "queue_refs_used s today"
    then have "set (map url (queue s today)) \<subseteq> set (used_reels s)"
      by (simp add: queue_refs_used_iff)
    moreover have "set (map url batch) \<subseteq> set (available s)"
      using refs in_pool by blast
    ultimately show "set (map url batch) \<inter> set (map url (queue s today)) = {}"
      using available_not_used [of s] by blast
  qed
  have inv: "queue_refs_used s1 today"
    using refs used by (auto simp: queue_refs_used_iff q1 used_reels_def)
  have others: "\<forall>d. d \<noteq> today \<longrightarrow> daily_json s1 d = daily_json s d"
    using daily by simp
  from run others q1 fresh inv show ?thesis by blast
qed

lemma slots_setup_schedule_upload:
  "slots setup_schedule d Upload_next_reel =
     (if d = Saturday \<or> d = Sunday
      then [''09:00'', ''12:00'', ''15:00'', ''18:30'', ''21:30'']
      else [''07:30'', ''11:00'', ''13:30'', ''17:30'', ''21:00''])"
  by (cases d) (simp_all add: setup_schedule_def upload_at_def)

lemma slots_setup_schedule_process:
  "slots setup_schedule d Process_daily_reels = [''00:01'']"
  by (cases d) (simp_all add: setup_schedule_def upload_at_def)

subsection \<open>A fetch collaborator that always fails\<close>

lemma download_reel_offline: "fst (download_reel now offline u s) = None"
  by (simp add: download_reel_def extract_reel_info_def offline_def Let_def)

lemma download_loop_offline: "fst (download_loop now offline us acc s) = acc"
proof (induction us arbitrary: s)
  case Nil
  show ?case by simp
next
  case (Cons u us)
  obtain r s1 where r: "download_reel now offline u s = (r, s1)"
    by (cases "download_reel now offline u s")
  with download_reel_offline [of now u s] have "r = None" by simp
  with r Cons.IH [of s1] show ?case by simp
qed

lemma process_daily_reels_offline:
  assumes "process_daily_reels limit now rnd offline s = Inr (batch, s')"
  shows "batch = []"
proof (cases "length (available s) < limit")
  case True
  with process_daily_reels_insufficient [OF True, of now rnd offline] assms
  show ?thesis by simp
next
  case False
  then have le: "limit \<le> length (available s)" by simp
  from random_sample_enough [OF le, of rnd] obtain sel where
    sel: "random_sample rnd (available s) limit = Inr sel" by blast
  obtain b s2 where loop: "download_loop now offline sel [] (snd (get_available_reels s)) = (b, s2)"
    by (cases "download_loop now offline sel [] (snd (get_available_reels s))")
  with download_loop_offline [of now sel "[]" "snd (get_available_reels s)"]
  have "b = []" by simp
  with assms False sel loop show ?thesis
    by (simp add: process_daily_reels_def get_available_reels_eq Let_def split: prod.splits)
qed

subsection \<open>Concrete runs\<close>

lemma shortcode_of_p3: "shortcode_of ''p/3/'' = ''3''"
  by (simp add: shortcode_of_def rstrip_slash_def last_segment_def)

lemma fetched_only_3:
  "List.map_filter (fetched_entry only_3) [''p/1/'', ''p/1/'', ''p/3/'', ''p/4/'', ''p/5/'']
     = [\<lparr>file_path = ''downloaded_reels/3.mp4'', description = ''hello'', url = ''p/3/''\<rparr>]"
  by (simp add: List.map_filter_simps fetched_entry_def only_3_def online_def offline_def
      shortcode_of_def rstrip_slash_def last_segment_def)

lemma sample_first_left:
  "random_sample first_left (available pool_store) daily_limit
     = Inr [''p/1/'', ''p/1/'', ''p/3/'', ''p/4/'', ''p/5/'']"
proof -
  have five: "daily_limit = Suc (Suc (Suc (Suc (Suc 0))))"
    by (simp add: daily_limit_def)
  show ?thesis
    unfolding available_pool_store random_sample_def five
    by (simp add: first_left_def)
qed

lemma queue_store_removable: "\<not> remove_raises queue_store (file_path reel_A)"
  by (simp add: remove_raises_def queue_store_def)



section \<open>Specified properties\<close>

text \<open>
  C4. For every all-items list and used list, \<^verbatim>\<open>get_available_reels\<close> returns exactly
  the elements of the all-items list that are not in the used list: it is the all-items
  list filtered, in the same order (a subsequence), it has the set difference as its
  elements, and every reference that is not used occurs in it as many times as in the
  all-items list.
\<close>

theorem available_is_ordered_difference:
  "available s = filter (\<lambda>r. r \<notin> set (used_reels s)) (all_reels s)
   \<and> set (available s) = set (all_reels s) - set (used_reels s)
   \<and> subseq (available s) (all_reels s)
   \<and> (\<forall>r. r \<notin> set (used_reels s) \<longrightarrow> count_list (available s) r = count_list (all_reels s) r)"
  by (auto simp: available_filter count_list_filter)

theorem available_is_ordered_difference_witness:
  "available pool_store = [''p/1/'', ''p/1/'', ''p/3/'', ''p/4/'', ''p/5/'', ''p/6/'']
   \<and> ''p/1/'' \<notin> set (used_reels pool_store)
   \<and> count_list (available pool_store) ''p/1/'' = 2"
proof -
  have u: "used_reels pool_store = [''p/2/'']"
    by (simp add: used_reels_def pool_store_def)
  have a: "all_reels pool_store = [''p/1/'', ''p/2/'', ''p/1/'', ''p/3/'', ''p/4/'', ''p/5/'', ''p/6/'']"
    by (simp add: all_reels_def pool_store_def)
  from available_is_ordered_difference [of pool_store] u a show ?thesis
    by simp
qed

text \<open>
  C1. Whenever at least \<open>limit\<close> references are available, \<^verbatim>\<open>process_daily_reels\<close>
  returns, whatever the fetch collaborator answers for each reference: the used list
  afterwards is the used list before followed by exactly the \<open>limit\<close> sampled
  references, none of which was used before. The call returns exactly the entries of
  those sampled references whose fetch succeeded, in sample order, one entry per
  successful fetch, and that list is also what it stores as the day's queue; so it has at
  most \<open>limit\<close> entries, and fewer as soon as one fetch fails.
\<close>

theorem materialize_marks_sample_used:
  assumes "limit \<le> length (available s)"
  shows "\<exists>selected batch s'.
           random_sample rnd (available s) limit = Inr selected
           \<and> process_daily_reels limit now rnd world s = Inr (batch, s')
           \<and> used_json s' = Listing (used_reels s @ selected)
           \<and> used_reels s' = used_reels s @ selected
           \<and> length selected = limit
           \<and> set selected \<inter> set (used_reels s) = {}
           \<and> mset selected \<subseteq># mset (available s)
           \<and> batch = List.map_filter (fetched_entry world) selected
           \<and> queue s' (strftime_date now) = batch
           \<and> subseq (map url batch) selected
           \<and> length batch \<le> limit
           \<and> length batch = length (filter (\<lambda>u. fetched_entry world u \<noteq> None) selected)"
proof -
  from random_sample_enough [OF assms, of rnd] obtain ps where
    sel: "random_sample rnd (available s) limit = Inr (map ((!) (available s)) ps)"
    and ps: "distinct ps" "\<forall>p \<in> set ps. p < length (available s)" "length ps = limit"
    by blast
  define selected where "selected = map ((!) (available s)) ps"
  have len: "length selected = limit"
    using ps(3) by (simp add: selected_def)
  have sub: "mset selected \<subseteq># mset (available s)"
    unfolding selected_def using ps(1,2) by (rule map_nth_distinct_mset)
  then have "set selected \<subseteq> set (available s)"
    by (metis set_mset_mono set_mset_mset)
  with available_not_used [of s] have fresh: "set selected \<inter> set (used_reels s) = {}"
    by blast
  from process_daily_reels_enough [OF assms sel [folded selected_def], of now world]
  obtain batch s' where
    run: "process_daily_reels limit now rnd world s = Inr (batch, s')"
    and used: "used_json s' = Listing (used_reels s @ selected)"
    and daily: "daily_json s' = (daily_json s)(strftime_date now := Listing batch)"
    and order: "subseq (map url batch) selected"
    and exact: "batch = List.map_filter (fetched_entry world) selected"
    by blast
  have "used_reels s' = used_reels s @ selected"
    using used by (rule used_reels_Listing)
  moreover have "queue s' (strftime_date now) = batch"
    using daily by (simp add: queue_Listing)
  moreover have "length batch \<le> limit"
    using list_emb_length [OF order] len by simp
  moreover have "length batch = length (filter (\<lambda>u. fetched_entry world u \<noteq> None) selected)"
    unfolding exact by (simp add: List.map_filter_def)
  ultimately show ?thesis
    using sel [folded selected_def] run used len fresh sub order exact by blast
qed

theorem materialize_marks_sample_used_witness:
  "daily_limit \<le> length (available pool_store)
   \<and> random_sample first_left (available pool_store) daily_limit
       = Inr [''p/1/'', ''p/1/'', ''p/3/'', ''p/4/'', ''p/5/'']
   \<and> (\<exists>s'. process_daily_reels daily_limit evening first_left only_3 pool_store
             = Inr ([\<lparr>file_path = ''downloaded_reels/3.mp4'', description = ''hello'',
                      url = ''p/3/''\<rparr>], s')
           \<and> used_reels s' = [''p/2/'', ''p/1/'', ''p/1/'', ''p/3/'', ''p/4/'', ''p/5/'']
           \<and> queue s' (strftime_date evening)
               = [\<lparr>file_path = ''downloaded_reels/3.mp4'', description = ''hello'',
                    url = ''p/3/''\<rparr>])
   \<and> (\<exists>s'. process_daily_reels daily_limit evening first_left offline pool_store = Inr ([], s')
           \<and> used_reels s' = [''p/2/'', ''p/1/'', ''p/1/'', ''p/3/'', ''p/4/'', ''p/5/''])"
proof -
  have u: "used_reels pool_store = [''p/2/'']"
    by (simp add: used_reels_def pool_store_def)
  have h: "daily_limit \<le> length (available pool_store)"
    by (simp add: daily_limit_def available_pool_store)
  from materialize_marks_sample_used [OF h, of first_left evening only_3]
  obtain selected batch s' where
    r: "random_sample first_left (available pool_store) daily_limit = Inr selected"
      "process_daily_reels daily_limit evening first_left only_3 pool_store = Inr (batch, s')"
      "used_reels s' = used_reels pool_store @ selected"
      "queue s' (strftime_date evening) = batch"
      "batch = List.map_filter (fetched_entry only_3) selected"
    by blast
  from r(1) sample_first_left
  have s: "selected = [''p/1/'', ''p/1/'', ''p/3/'', ''p/4/'', ''p/5/'']"
    by simp
  have b: "batch = [\<lparr>file_path = ''downloaded_reels/3.mp4'', description = ''hello'',
                      url = ''p/3/''\<rparr>]"
    unfolding r(5) s by (rule fetched_only_3)
  from materialize_marks_sample_used [OF h, of first_left evening offline]
  obtain selected0 batch0 s0 where
    r0: "random_sample first_left (available pool_store) daily_limit = Inr selected0"
      "process_daily_reels daily_limit evening first_left offline pool_store = Inr (batch0, s0)"
      "used_reels s0 = used_reels pool_store @ selected0"
    by blast
  from r0(1) sample_first_left
  have s0: "selected0 = [''p/1/'', ''p/1/'', ''p/3/'', ''p/4/'', ''p/5/'']"
    by simp
  from process_daily_reels_offline [OF r0(2)] have b0: "batch0 = []" .
  have one: "\<exists>s'. process_daily_reels daily_limit evening first_left only_3 pool_store
             = Inr ([\<lparr>file_path = ''downloaded_reels/3.mp4'', description = ''hello'',
                      url = ''p/3/''\<rparr>], s')
           \<and> used_reels s' = [''p/2/'', ''p/1/'', ''p/1/'', ''p/3/'', ''p/4/'', ''p/5/'']
           \<and> queue s' (strftime_date evening)
               = [\<lparr>file_path = ''downloaded_reels/3.mp4'', description = ''hello'',
                    url = ''p/3/''\<rparr>]"
    using r(2,3,4) s b u by auto
  have none: "\<exists>s'. process_daily_reels daily_limit evening first_left offline pool_store
                      = Inr ([], s')
           \<and> used_reels s' = [''p/2/'', ''p/1/'', ''p/1/'', ''p/3/'', ''p/4/'', ''p/5/'']"
    using r0(2,3) s0 b0 u by auto
  from h sample_first_left one none show ?thesis by blast
qed

text \<open>
  C5. When fewer than \<open>limit\<close> references are available, \<^verbatim>\<open>process_daily_reels\<close>
  does not sample: it logs one warning and returns normally with the empty batch. When at
  least \<open>limit\<close> are available, it samples, and the sample it works on, which is what it
  appends to the used list and fetches its batch from, consists of the entries at
  \<open>limit\<close> pairwise different positions of the available list (a draw without
  replacement), so it is contained in the pool with multiplicities, and its references
  are pairwise different whenever those of the pool are.
\<close>

theorem select_warns_or_samples:
  "(length (available s) < limit \<longrightarrow>
      (\<exists>s'. process_daily_reels limit now rnd world s = Inr ([], s')
            \<and> last (log s') = Not_enough_reels (length (available s))
            \<and> level_of (last (log s')) = WARNING))
   \<and> (limit \<le> length (available s) \<longrightarrow>
      (\<exists>ps selected batch s'.
          random_sample rnd (available s) limit = Inr selected
          \<and> selected = map ((!) (available s)) ps
          \<and> distinct ps
          \<and> (\<forall>p \<in> set ps. p < length (available s))
          \<and> length selected = limit
          \<and> mset selected \<subseteq># mset (available s)
          \<and> (distinct (available s) \<longrightarrow> distinct selected)
          \<and> process_daily_reels limit now rnd world s = Inr (batch, s')
          \<and> used_reels s' = used_reels s @ selected
          \<and> batch = List.map_filter (fetched_entry world) selected))"
proof (intro conjI impI)
  assume short: "length (available s) < limit"
  from process_daily_reels_insufficient [OF short, of now rnd world]
  show "\<exists>s'. process_daily_reels limit now rnd world s = Inr ([], s')
            \<and> last (log s') = Not_enough_reels (length (available s))
            \<and> level_of (last (log s')) = WARNING"
    by (simp add: logger_def)
next
  assume enough: "limit \<le> length (available s)"
  from random_sample_enough [OF enough, of rnd] obtain ps where
    sel: "random_sample rnd (available s) limit = Inr (map ((!) (available s)) ps)"
    and ps: "distinct ps" "\<forall>p \<in> set ps. p < length (available s)" "length ps = limit"
    by blast
  have m: "mset (map ((!) (available s)) ps) \<subseteq># mset (available s)"
    using ps(1,2) by (rule map_nth_distinct_mset)
  have d: "distinct (available s) \<longrightarrow> distinct (map ((!) (available s)) ps)"
    using ps(1,2) by (simp add: map_nth_distinct_distinct)
  from process_daily_reels_enough [OF enough sel, of now world] obtain batch s' where
    run: "process_daily_reels limit now rnd world s = Inr (batch, s')"
    and used: "used_json s' = Listing (used_reels s @ map ((!) (available s)) ps)"
    and exact: "batch = List.map_filter (fetched_entry world) (map ((!) (available s)) ps)"
    by blast
  have u: "used_reels s' = used_reels s @ map ((!) (available s)) ps"
    using used by (rule used_reels_Listing)
  have l: "length (map ((!) (available s)) ps) = limit"
    using ps(3) by simp
  from sel ps(1,2) l m d run u exact
  show "\<exists>ps selected batch s'.
          random_sample rnd (available s) limit = Inr selected
          \<and> selected = map ((!) (available s)) ps
          \<and> distinct ps
          \<and> (\<forall>p \<in> set ps. p < length (available s))
          \<and> length selected = limit
          \<and> mset selected \<subseteq># mset (available s)
          \<and> (distinct (available s) \<longrightarrow> distinct selected)
          \<and> process_daily_reels limit now rnd world s = Inr (batch, s')
          \<and> used_reels s' = used_reels s @ selected
          \<and> batch = List.map_filter (fetched_entry world) selected"
    by blast
qed

theorem select_warns_or_samples_witness:
  "length (available short_store) < daily_limit
   \<and> (\<exists>s'. process_daily_reels daily_limit evening first_left online short_store = Inr ([], s')
           \<and> level_of (last (log s')) = WARNING)
   \<and> daily_limit \<le> length (available pool_store)
   \<and> (\<exists>batch s'. process_daily_reels daily_limit evening one_copy online pool_store
                   = Inr (batch, s')
           \<and> used_reels s' = [''p/2/'', ''p/1/'', ''p/3/'', ''p/4/'', ''p/5/'', ''p/6/''])"
proof -
  have a: "length (available short_store) = 3"
    by (simp add: available_filter) (simp add: all_reels_def used_reels_def short_store_def)
  have b: "length (available pool_store) = 6"
    by (simp add: available_pool_store)
  have u: "used_reels pool_store = [''p/2/'']"
    by (simp add: used_reels_def pool_store_def)
  have five: "daily_limit = Suc (Suc (Suc (Suc (Suc 0))))"
    by (simp add: daily_limit_def)
  have sel: "random_sample one_copy (available pool_store) daily_limit
               = Inr [''p/1/'', ''p/3/'', ''p/4/'', ''p/5/'', ''p/6/'']"
    unfolding available_pool_store random_sample_def five
    by (simp add: one_copy_def)
  from select_warns_or_samples [of short_store daily_limit evening first_left online] a
  have 1: "\<exists>s'. process_daily_reels daily_limit evening first_left online short_store = Inr ([], s')
           \<and> level_of (last (log s')) = WARNING"
    by (auto simp: daily_limit_def)
  from select_warns_or_samples [of pool_store daily_limit evening one_copy online] b
  obtain selected batch s' where
    r: "random_sample one_copy (available pool_store) daily_limit = Inr selected"
      "process_daily_reels daily_limit evening one_copy online pool_store = Inr (batch, s')"
      "used_reels s' = used_reels pool_store @ selected"
    by (auto simp: daily_limit_def)
  from r(1) sel have "selected = [''p/1/'', ''p/3/'', ''p/4/'', ''p/5/'', ''p/6/'']"
    by simp
  with r(2,3) u
  have 2: "\<exists>batch s'. process_daily_reels daily_limit evening one_copy online pool_store
                   = Inr (batch, s')
           \<and> used_reels s' = [''p/2/'', ''p/1/'', ''p/3/'', ''p/4/'', ''p/5/'', ''p/6/'']"
    by auto
  from a b 1 2 show ?thesis by (simp add: daily_limit_def)
qed

text \<open>
  C9. When fewer than \<open>limit\<close> references are available, \<^verbatim>\<open>process_daily_reels\<close>
  returns the empty list and leaves every file as it was: the used list is not extended,
  no daily queue file is written, the ledger gets no row, the media on disk are the same
  and the publish collaborator is not called.
\<close>

theorem insufficient_pool_changes_nothing:
  assumes "length (available s) < limit"
  shows "\<exists>s'. process_daily_reels limit now rnd world s = Inr ([], s')
              \<and> persisted s' = persisted s
              \<and> used_json s' = used_json s
              \<and> daily_json s' = daily_json s
              \<and> description_xlsx s' = description_xlsx s
              \<and> clip_uploads s' = clip_uploads s"
  using process_daily_reels_insufficient [OF assms, of now rnd world]
  by (simp add: get_available_reels_eq logger_def persisted_def)

theorem insufficient_pool_changes_nothing_witness:
  "length (available short_store) < daily_limit
   \<and> (\<exists>s'. process_daily_reels daily_limit evening first_left online short_store = Inr ([], s')
           \<and> used_json s' = Listing [''p/4/'']
           \<and> daily_json s' ''2024-01-01'' = Absent
           \<and> description_xlsx s' = Listing [])"
proof -
  have a: "length (available short_store) < daily_limit"
    by (simp add: available_filter daily_limit_def)
       (simp add: all_reels_def used_reels_def short_store_def)
  from insufficient_pool_changes_nothing [OF a, of evening first_left online] a
  show ?thesis
    by (auto simp: short_store_def)
qed

text \<open>
  C10. A reference that occurs in the used list is excluded from the available list at
  every position where the all-items list has it, however often it is listed. Sampling
  one copy puts the reference into the used list, so no copy of it is available after
  that call, and it stays unavailable through every later series of prepare and drain
  calls, none of which raises.
\<close>

theorem used_reference_is_never_available_again:
  "(r \<in> set (used_reels s) \<longrightarrow>
      r \<notin> set (available s) \<and> count_list (available s) r = 0
      \<and> (\<exists>s'. run_calls limit cs s = Inr s' \<and> r \<notin> set (available s')))
   \<and> (\<forall>selected. random_sample rnd (available s) limit = Inr selected \<and> r \<in> set selected \<longrightarrow>
      (\<exists>batch s1 s'. process_daily_reels limit now rnd world s = Inr (batch, s1)
                     \<and> r \<notin> set (available s1)
                     \<and> run_calls limit cs s1 = Inr s' \<and> r \<notin> set (available s')))"
proof (intro conjI impI allI)
  assume u: "r \<in> set (used_reels s)"
  then show "r \<notin> set (available s)" by (simp add: available_filter)
  then show "count_list (available s) r = 0" by (simp add: count_list_0_iff)
  from run_calls_used_grows [of limit cs s] u
  show "\<exists>s'. run_calls limit cs s = Inr s' \<and> r \<notin> set (available s')"
    by (auto simp: available_filter)
next
  fix selected
  assume a: "random_sample rnd (available s) limit = Inr selected \<and> r \<in> set selected"
  then have le: "limit \<le> length (available s)"
    by (auto simp: random_sample_def split: if_splits)
  from process_daily_reels_enough [OF le, of rnd selected now world] a
  obtain batch s1 where
    run: "process_daily_reels limit now rnd world s = Inr (batch, s1)"
    and used: "used_json s1 = Listing (used_reels s @ selected)"
    by blast
  from used a have r: "r \<in> set (used_reels s1)"
    by (simp add: used_reels_def)
  from run_calls_used_grows [of limit cs s1] obtain s' where
    s': "run_calls limit cs s1 = Inr s'" "set (used_reels s1) \<subseteq> set (used_reels s')"
    by blast
  from r s' run
  show "\<exists>batch s1 s'. process_daily_reels limit now rnd world s = Inr (batch, s1)
                     \<and> r \<notin> set (available s1)
                     \<and> run_calls limit cs s1 = Inr s' \<and> r \<notin> set (available s')"
    by (auto simp: available_filter)
qed

theorem used_reference_is_never_available_again_witness:
  "random_sample one_copy (available pool_store) daily_limit
     = Inr [''p/1/'', ''p/3/'', ''p/4/'', ''p/5/'', ''p/6/'']
   \<and> count_list (all_reels pool_store) ''p/1/'' = 2
   \<and> (\<exists>batch s1 s'.
         process_daily_reels daily_limit evening one_copy offline pool_store = Inr (batch, s1)
         \<and> ''p/1/'' \<notin> set (available s1)
         \<and> run_calls daily_limit [Drain next_morning True] s1 = Inr s'
         \<and> ''p/1/'' \<notin> set (available s'))"
proof -
  have five: "daily_limit = Suc (Suc (Suc (Suc (Suc 0))))"
    by (simp add: daily_limit_def)
  have sel: "random_sample one_copy (available pool_store) daily_limit
               = Inr [''p/1/'', ''p/3/'', ''p/4/'', ''p/5/'', ''p/6/'']"
    unfolding available_pool_store random_sample_def five
    by (simp add: one_copy_def)
  have cnt: "count_list (all_reels pool_store) ''p/1/'' = 2"
    by (simp add: all_reels_def pool_store_def)
  from used_reference_is_never_available_again
    [of "''p/1/''" pool_store daily_limit "[Drain next_morning True]" one_copy evening offline]
    sel
  have "\<exists>batch s1 s'.
         process_daily_reels daily_limit evening one_copy offline pool_store = Inr (batch, s1)
         \<and> ''p/1/'' \<notin> set (available s1)
         \<and> run_calls daily_limit [Drain next_morning True] s1 = Inr s'
         \<and> ''p/1/'' \<notin> set (available s')"
    by simp
  with sel cnt show ?thesis by simp
qed

text \<open>
  C6. In a state where, for each of a series of drain calls, the daily queue file of the
  call's date is absent or holds the empty list, the whole series changes no file: the
  queues, the used list, the ledger, the all-items list and the media on disk are what
  they were, the publish collaborator is not called, and each call only logs one message
  of level INFO.
\<close>

theorem drain_on_empty_queue_is_a_no_op:
  assumes "\<forall>c \<in> set cs. daily_json s (strftime_date (fst c)) = Absent
                        \<or> daily_json s (strftime_date (fst c)) = Listing []"
  shows "persisted (drains cs s) = persisted s
         \<and> used_json (drains cs s) = used_json s
         \<and> daily_json (drains cs s) = daily_json s
         \<and> description_xlsx (drains cs s) = description_xlsx s
         \<and> clip_uploads (drains cs s) = clip_uploads s
         \<and> (\<exists>evs. log (drains cs s) = log s @ evs \<and> length evs = length cs
                  \<and> (\<forall>e \<in> set evs. level_of e = INFO))"
proof -
  from drains_idle [OF assms] obtain evs where
    evs: "drains cs s = logger evs s" "length evs = length cs"
      "\<forall>e \<in> set evs. level_of e = INFO" by blast
  have "log (drains cs s) = log s @ evs"
    using evs(1) by (simp add: logger_def)
  with evs show ?thesis
    by (auto simp: logger_def persisted_def)
qed

theorem drain_on_empty_queue_is_a_no_op_witness:
  "daily_json pool_store (strftime_date evening) = Absent
   \<and> daily_json pool_store (strftime_date next_morning) = Absent
   \<and> persisted (drains [(evening, True), (evening, False), (next_morning, True)] pool_store)
       = persisted pool_store
   \<and> clip_uploads (drains [(evening, True), (evening, False), (next_morning, True)] pool_store) = []"
proof -
  have a: "\<forall>c \<in> set [(evening, True), (evening, False), (next_morning, True)].
             daily_json pool_store (strftime_date (fst c)) = Absent
             \<or> daily_json pool_store (strftime_date (fst c)) = Listing []"
    by (simp add: pool_store_def)
  from drain_on_empty_queue_is_a_no_op [OF a] show ?thesis
    by (simp add: pool_store_def)
qed

text \<open>
  C2, as the code has it. If the queue of a date is not empty and the publish
  collaborator fails on its head, the drain call leaves the persisted queue as it was:
  same length, same entry at the front, and no other file changes. Every further drain
  call made on that same date calls the publish collaborator on this entry again, at
  once and however many failures came before: after any number of failing calls on that
  date the queue is still the same and the entry has been tried once per call. (A drain
  call on another date reads that date's queue file; see the counterexample.)
\<close>

theorem failed_publish_keeps_head_for_that_date:
  assumes "queue s today = rd # rest"
    and "\<forall>c \<in> set cs. strftime_date (fst c) = today \<and> \<not> snd c"
    and "strftime_date now = today"
  shows "queue (upload_next_reel now False s) today = rd # rest
         \<and> persisted (upload_next_reel now False s) = persisted s
         \<and> persisted (drains cs s) = persisted s
         \<and> queue (drains cs s) today = rd # rest
         \<and> clip_uploads (drains cs s)
             = clip_uploads s @ replicate (length cs) (file_path rd, description rd)
         \<and> clip_uploads (upload_next_reel now ok (drains cs s))
             = clip_uploads (drains cs s) @ [(file_path rd, description rd)]"
proof -
  from drains_failures [OF assms(1,2)]
  have p: "persisted (drains cs s) = persisted s"
    and u: "clip_uploads (drains cs s)
              = clip_uploads s @ replicate (length cs) (file_path rd, description rd)"
    by simp_all
  from persisted_queue [OF p] assms(1)
  have q: "queue (drains cs s) today = rd # rest" by simp
  from drains_failures [OF assms(1), of "[(now, False)]"] assms(3)
  have p1: "persisted (upload_next_reel now False s) = persisted s" by simp
  from persisted_queue [OF p1] assms(1)
  have q1: "queue (upload_next_reel now False s) today = rd # rest" by simp
  from q assms(3) have "queue (drains cs s) (strftime_date now) = rd # rest" by simp
  from upload_next_reel_calls_head [OF this]
  have "clip_uploads (upload_next_reel now ok (drains cs s))
          = clip_uploads (drains cs s) @ [(file_path rd, description rd)]" .
  with p u q p1 q1 show ?thesis by simp
qed

theorem failed_publish_keeps_head_for_that_date_witness:
  "queue queue_store ''2024-01-01'' = reel_A # [reel_B]
   \<and> strftime_date evening = ''2024-01-01''
   \<and> queue (upload_next_reel evening False queue_store) ''2024-01-01'' = [reel_A, reel_B]
   \<and> queue (drains [(evening, False), (evening, False), (evening, False)] queue_store)
        ''2024-01-01'' = [reel_A, reel_B]
   \<and> clip_uploads (drains [(evening, False), (evening, False), (evening, False)] queue_store)
        = [(file_path reel_A, description reel_A), (file_path reel_A, description reel_A),
           (file_path reel_A, description reel_A)]"
proof -
  have q: "queue queue_store ''2024-01-01'' = reel_A # [reel_B]"
    using queue_store_evening by (simp add: strftime_date_evening)
  have c: "\<forall>c \<in> set [(evening, False), (evening, False), (evening, False)].
             strftime_date (fst c) = ''2024-01-01'' \<and> \<not> snd c"
    by (simp add: strftime_date_evening)
  have u: "clip_uploads queue_store = []"
    by (simp add: queue_store_def)
  from failed_publish_keeps_head_for_that_date [OF q c strftime_date_evening, of True] q u
  show ?thesis
    by (simp add: strftime_date_evening numeral_eq_Suc)
qed

text \<open>
  C2 as stated fails: the entry is not retried on the next drain call when that call
  falls on another date. The 21:00 call of 2024-01-01 fails on the head entry; the next
  drain call, at 07:30 on 2024-01-02, calls the publish collaborator on nothing, and the
  entry stays at the front of the queue of 2024-01-01.
\<close>

theorem failed_publish_not_retried_next_day:
  "clip_uploads (upload_next_reel evening False queue_store)
     = [(file_path reel_A, description reel_A)]
   \<and> clip_uploads (upload_next_reel next_morning True (upload_next_reel evening False queue_store))
     = [(file_path reel_A, description reel_A)]
   \<and> queue (upload_next_reel next_morning True (upload_next_reel evening False queue_store))
        ''2024-01-01'' = [reel_A, reel_B]"
proof -
  define s1 where "s1 = upload_next_reel evening False queue_store"
  have s1: "s1 = queue_store\<lparr>clip_uploads := [(file_path reel_A, description reel_A)],
                            log := [Failed_to_upload (file_path reel_A)]\<rparr>"
    unfolding s1_def upload_next_reel_failure [OF queue_store_evening]
    by (simp add: queue_store_def)
  have absent: "daily_json s1 (strftime_date next_morning) = Absent"
    by (simp add: s1 strftime_date_next_morning queue_store_def)
  from upload_next_reel_idle [of s1 next_morning True] absent obtain e where
    "upload_next_reel next_morning True s1 = logger [e] s1" by blast
  then have "clip_uploads (upload_next_reel next_morning True s1) = clip_uploads s1"
    and "queue (upload_next_reel next_morning True s1) ''2024-01-01'' = queue s1 ''2024-01-01''"
    by (simp_all add: logger_def queue_def)
  moreover have "clip_uploads s1 = [(file_path reel_A, description reel_A)]"
    by (simp add: s1)
  moreover have "queue s1 ''2024-01-01'' = [reel_A, reel_B]"
    by (simp add: s1 queue_def queue_store_def)
  ultimately show ?thesis
    by (simp add: s1_def)
qed




text \<open>
  C7. A drain call calls the publish collaborator at most once, and then on the head of
  the queue of its date. The persisted queue of that date afterwards is the one before
  or the one before without its head, hence always a suffix of it; the queue files of
  all other dates are untouched. The only other operation that writes a queue file,
  \<^verbatim>\<open>process_daily_reels\<close>, always returns and leaves the queue of its date as it was
  or replaces it by the batch it returns, and the files of other dates as they were; when
  the queued references are in the used list, as they are after every prepare and drain
  call, the new batch shares no reference with the queue it replaces, so no entry ever
  changes its place relative to another.
\<close>

theorem queue_is_only_taken_from_the_front:
  fixes s :: store and now :: datetime and ok :: bool
  defines "today \<equiv> strftime_date now" and "s' \<equiv> upload_next_reel now ok s"
  shows "(queue s' today = queue s today \<or> (\<exists>rd. queue s today = rd # queue s' today))
         \<and> suffix (queue s' today) (queue s today)
         \<and> (\<forall>d. d \<noteq> today \<longrightarrow> daily_json s' d = daily_json s d)
         \<and> (clip_uploads s' = clip_uploads s
              \<or> (\<exists>rd rest. queue s today = rd # rest
                    \<and> clip_uploads s' = clip_uploads s @ [(file_path rd, description rd)]))
         \<and> (queue_refs_used s today \<longrightarrow> queue_refs_used s' today)
         \<and> (\<exists>batch s1. process_daily_reels limit now rnd world s = Inr (batch, s1)
               \<and> (\<forall>d. d \<noteq> today \<longrightarrow> daily_json s1 d = daily_json s d)
               \<and> (daily_json s1 today = daily_json s today
                    \<or> queue s1 today = batch
                      \<and> (queue_refs_used s today \<longrightarrow>
                           set (map url batch) \<inter> set (map url (queue s today)) = {}))
               \<and> (queue_refs_used s today \<longrightarrow> queue_refs_used s1 today))"
  using upload_next_reel_queue [of now ok s]
    process_daily_reels_queue [of limit now rnd world s]
  unfolding today_def s'_def by blast

theorem queue_is_only_taken_from_the_front_witness:
  "queue queue_store (strftime_date evening) = [reel_A, reel_B]
   \<and> queue (upload_next_reel evening True queue_store) (strftime_date evening) = [reel_B]
   \<and> suffix (queue (upload_next_reel evening True queue_store) (strftime_date evening))
        (queue queue_store (strftime_date evening))
   \<and> daily_json (upload_next_reel evening True queue_store) ''2024-01-02''
        = daily_json queue_store ''2024-01-02''
   \<and> queue_refs_used queue_store (strftime_date evening)
   \<and> queue_refs_used (upload_next_reel evening True queue_store) (strftime_date evening)"
proof -
  have q: "queue queue_store (strftime_date evening) = [reel_A, reel_B]"
    using queue_store_evening by simp
  have q': "queue (upload_next_reel evening True queue_store) (strftime_date evening) = [reel_B]"
    using upload_next_reel_success_fields(3) [OF queue_store_evening queue_store_removable]
    by (simp add: queue_def)
  have inv: "queue_refs_used queue_store (strftime_date evening)"
    unfolding queue_refs_used_def q
    by (simp add: used_reels_def queue_store_def reel_A_def reel_B_def)
  have other: "''2024-01-02'' \<noteq> strftime_date evening"
    by (simp add: strftime_date_evening)
  from queue_is_only_taken_from_the_front
    [where s = queue_store and now = evening and ok = True and limit = daily_limit
       and rnd = first_left and world = offline]
    q q' inv other
  show ?thesis by simp
qed

text \<open>
  C8, as the code has it. The schedule registers exactly five publish slots on every day
  of the week, each one job that calls \<^verbatim>\<open>upload_next_reel\<close> once: 07:30, 11:00, 13:30,
  17:30 and 21:00 from Monday to Friday, 09:00, 12:00, 15:00, 18:30 and 21:30 on Saturday
  and Sunday; and exactly one prepare slot on every day, 00:01, which calls
  \<^verbatim>\<open>process_daily_reels\<close>. That makes 36 jobs.
\<close>

theorem schedule_has_five_drains_and_one_prepare_a_day:
  "slots setup_schedule d Upload_next_reel =
     (if d = Saturday \<or> d = Sunday
      then [''09:00'', ''12:00'', ''15:00'', ''18:30'', ''21:30'']
      else [''07:30'', ''11:00'', ''13:30'', ''17:30'', ''21:00''])
   \<and> length (slots setup_schedule d Upload_next_reel) = 5
   \<and> distinct (slots setup_schedule d Upload_next_reel)
   \<and> slots setup_schedule d Process_daily_reels = [''00:01'']
   \<and> length setup_schedule = 36"
proof -
  have "length setup_schedule = 36"
    by (simp add: setup_schedule_def)
  then show ?thesis
    unfolding slots_setup_schedule_upload slots_setup_schedule_process by simp
qed

theorem schedule_has_five_drains_and_one_prepare_a_day_witness:
  "slots setup_schedule Wednesday Upload_next_reel
     = [''07:30'', ''11:00'', ''13:30'', ''17:30'', ''21:00'']
   \<and> slots setup_schedule Sunday Upload_next_reel
     = [''09:00'', ''12:00'', ''15:00'', ''18:30'', ''21:30'']
   \<and> slots setup_schedule Sunday Process_daily_reels = [''00:01'']"
  using schedule_has_five_drains_and_one_prepare_a_day [of Wednesday]
    schedule_has_five_drains_and_one_prepare_a_day [of Sunday]
  by simp

text \<open>
  C8 as stated fails: the number of publish slots does not depend on the weekday, and no
  day has ten of them.
\<close>

theorem no_day_has_ten_drain_slots:
  "length (slots setup_schedule Monday Upload_next_reel) \<noteq> 10
   \<and> length (slots setup_schedule Tuesday Upload_next_reel) \<noteq> 10
   \<and> length (slots setup_schedule Wednesday Upload_next_reel) \<noteq> 10
   \<and> length (slots setup_schedule Thursday Upload_next_reel) \<noteq> 10
   \<and> length (slots setup_schedule Friday Upload_next_reel) \<noteq> 10
   \<and> length (slots setup_schedule Saturday Upload_next_reel) \<noteq> 10
   \<and> length (slots setup_schedule Sunday Upload_next_reel) \<noteq> 10
   \<and> length (slots setup_schedule Monday Upload_next_reel)
       = length (slots setup_schedule Saturday Upload_next_reel)"
  by (simp add: slots_setup_schedule_upload)

end
